theory Spec2Isabelle
  imports Main "HOL-Library.Word"
begin

unbundle bit_operations_syntax

section \<open>The SPSC ring buffer of \<^verbatim>\<open>memory/ring_buffer.h\<close>\<close>

text \<open>
  \<^verbatim>\<open>size_t\<close> on the x86-64 targets of this library is a 64-bit unsigned integer.
  The template parameter \<^verbatim>\<open>Capacity\<close> is an explicit first argument of every
  operation.
\<close>

type_synonym size_t = "64 word"

text \<open>
  The buffer is raw storage obtained from \<^verbatim>\<open>posix_memalign\<close>: a slot holds a
  live object (\<open>Some v\<close>, after the placement \<^verbatim>\<open>new\<close> of \<^verbatim>\<open>try_push\<close>) or no object
  (\<open>None\<close>: never constructed, or destructed by \<^verbatim>\<open>try_pop\<close>). The class stores no
  such flag; the model carries it so that a read of a slot without an object is
  a visible fault and not an unspecified value.
\<close>

record 'a SPSCRingBuffer =
  head :: size_t
  tail :: size_t
  buffer :: "'a option list"

text \<open>
  The C++ code checks neither the bounds of \<^verbatim>\<open>buffer_[i]\<close> nor the liveness of the
  object it moves from; both are undefined behaviour there and faults here.
\<close>

datatype fault = OutOfBounds | DeadSlotRead

datatype ctor_error = StaticAssertFailed | BadAlloc

text \<open>
  \<^verbatim>\<open>static_assert((Capacity != 0) && ((Capacity & (Capacity - 1)) == 0), ...)\<close>
\<close>

definition static_assert_Capacity :: "size_t \<Rightarrow> bool" where
  "static_assert_Capacity Capacity \<longleftrightarrow>
     Capacity \<noteq> 0 \<and> Capacity AND (Capacity - 1) = 0"

text \<open>
  The constructor calls \<^verbatim>\<open>posix_memalign(&ptr, CACHE_LINE_SIZE, sizeof(T) * Capacity)\<close>.
  The byte count is a product in \<^verbatim>\<open>size_t\<close> and wraps modulo \<open>2^64\<close>; \<^verbatim>\<open>sizeof(T)\<close> is the
  argument \<open>sizeof_T\<close> (at least 1 for every C++ type). The storage obtained has room
  for as many objects of type \<^verbatim>\<open>T\<close> as fit into the bytes requested: \<open>Capacity\<close> when
  the product does not wrap, fewer when it does (a request of 0 bytes succeeds and
  gives no slot at all).
\<close>

definition storage_slots :: "size_t \<Rightarrow> size_t \<Rightarrow> nat" where
  "storage_slots sizeof_T Capacity = unat (sizeof_T * Capacity) div unat sizeof_T"

text \<open>
  The state the constructor leaves: the member initialisers \<^verbatim>\<open>head_{0}\<close>,
  \<^verbatim>\<open>tail_{0}\<close> and the storage just obtained, no slot of which holds an object.
\<close>

definition fresh :: "size_t \<Rightarrow> size_t \<Rightarrow> 'a SPSCRingBuffer" where
  "fresh sizeof_T Capacity =
     \<lparr>head = 0, tail = 0, buffer = replicate (storage_slots sizeof_T Capacity) None\<rparr>"

text \<open>
  Instantiating the template and running the constructor. The outcome of
  \<^verbatim>\<open>posix_memalign\<close> belongs to the environment and is the argument \<open>alloc_ok\<close>;
  a failed \<^verbatim>\<open>static_assert\<close> rejects the program at compile time.
\<close>

definition SPSCRingBuffer_ctor ::
  "size_t \<Rightarrow> size_t \<Rightarrow> bool \<Rightarrow> ctor_error + 'a SPSCRingBuffer" where
  "SPSCRingBuffer_ctor sizeof_T Capacity alloc_ok =
     (if \<not> static_assert_Capacity Capacity then Inl StaticAssertFailed
      else if \<not> alloc_ok then Inl BadAlloc
      else Inr (fresh sizeof_T Capacity))"

text \<open>
  \<^verbatim>\<open>bool try_push(U&& item)\<close>, called with an rvalue of type \<^verbatim>\<open>T\<close>. The result is the
  returned flag, the caller's item after the call and the buffer after the call.
  The caller's item is \<open>Some item\<close> while nothing has touched it and \<open>None\<close> once
  \<^verbatim>\<open>std::forward<U>(item)\<close> has handed it to the move constructor of \<^verbatim>\<open>T\<close> (a
  moved-from object), which happens only at the placement \<^verbatim>\<open>new\<close>.
\<close>

definition try_push ::
  "size_t \<Rightarrow> 'a SPSCRingBuffer \<Rightarrow> 'a \<Rightarrow> fault + (bool \<times> 'a option \<times> 'a SPSCRingBuffer)" where
  "try_push Capacity s item =
     (let current_tail = tail s;
          next_tail = (current_tail + 1) AND (Capacity - 1)
      in if next_tail = head s then Inr (False, Some item, s)
         else if length (buffer s) \<le> unat current_tail then Inl OutOfBounds
         else Inr (True, None,
                s\<lparr>buffer := (buffer s)[unat current_tail := Some item],
                  tail := next_tail\<rparr>))"

text \<open>
  \<^verbatim>\<open>bool try_pop(T& out_item)\<close>: \<open>out_item\<close> is the caller's variable before the
  call; the result is the returned flag, the caller's variable after the call
  and the buffer after the call.
\<close>

definition try_pop ::
  "size_t \<Rightarrow> 'a SPSCRingBuffer \<Rightarrow> 'a \<Rightarrow> fault + (bool \<times> 'a \<times> 'a SPSCRingBuffer)" where
  "try_pop Capacity s out_item =
     (let current_head = head s
      in if current_head = tail s then Inr (False, out_item, s)
         else if length (buffer s) \<le> unat current_head then Inl OutOfBounds
         else (case buffer s ! unat current_head of
                 None \<Rightarrow> Inl DeadSlotRead
               | Some v \<Rightarrow>
                   (let next_head = (current_head + 1) AND (Capacity - 1)
                    in Inr (True, v,
                         s\<lparr>buffer := (buffer s)[unat current_head := None],
                           head := next_head\<rparr>))))"

subsection \<open>Single-threaded histories\<close>

text \<open>
  A history is a list of calls on one buffer, executed one after the other.
  \<open>TryReceive x\<close> is a call of \<^verbatim>\<open>try_pop\<close> whose out-variable holds \<open>x\<close> before
  the call.
\<close>

datatype 'a call = TrySend 'a | TryReceive 'a

datatype 'a ret = SendRet bool | ReceiveRet bool 'a

definition do_call ::
  "size_t \<Rightarrow> 'a SPSCRingBuffer \<Rightarrow> 'a call \<Rightarrow> fault + ('a ret \<times> 'a SPSCRingBuffer)" where
  "do_call Capacity s c =
     (case c of
        TrySend x \<Rightarrow>
          (case try_push Capacity s x of
             Inl e \<Rightarrow> Inl e
           | Inr (ok, item', s') \<Rightarrow> Inr (SendRet ok, s'))
      | TryReceive x \<Rightarrow>
          (case try_pop Capacity s x of
             Inl e \<Rightarrow> Inl e
           | Inr (ok, y, s') \<Rightarrow> Inr (ReceiveRet ok y, s')))"

fun run ::
  "size_t \<Rightarrow> 'a SPSCRingBuffer \<Rightarrow> 'a call list \<Rightarrow> fault + ('a ret list \<times> 'a SPSCRingBuffer)" where
  "run Capacity s [] = Inr ([], s)"
| "run Capacity s (c # cs) =
     (case do_call Capacity s c of
        Inl e \<Rightarrow> Inl e
      | Inr (r, s') \<Rightarrow>
          (case run Capacity s' cs of
             Inl e \<Rightarrow> Inl e
           | Inr (rs, s'') \<Rightarrow> Inr (r # rs, s'')))"

text \<open>The items of the successful sends and of the successful receives, in call order.\<close>

fun sends :: "'a call list \<Rightarrow> 'a ret list \<Rightarrow> 'a list" where
  "sends (TrySend x # cs) (SendRet True # rs) = x # sends cs rs"
| "sends (c # cs) (r # rs) = sends cs rs"
| "sends _ _ = []"

fun receives :: "'a ret list \<Rightarrow> 'a list" where
  "receives (ReceiveRet True y # rs) = y # receives rs"
| "receives (r # rs) = receives rs"
| "receives [] = []"




subsection \<open>The abstraction invariant\<close>

text \<open>
  \<open>rb_inv N s q\<close>: the buffer \<open>s\<close> of capacity \<open>N\<close> holds the queue \<open>q\<close> (oldest item
  first). The storage has \<open>N\<close> slots, the read cursor is in range, the write cursor is
  \<open>length q\<close> slots after it (cyclically), the slots in between hold the items of \<open>q\<close>
  in order and every other slot holds no object; fewer than \<open>N\<close> items are held.
\<close>

definition rb_inv :: "size_t \<Rightarrow> 'a SPSCRingBuffer \<Rightarrow> 'a list \<Rightarrow> bool" where
  "rb_inv N s q \<longleftrightarrow>
     length (buffer s) = unat N \<and> unat (head s) < unat N \<and> length q < unat N \<and>
     unat (tail s) = (unat (head s) + length q) mod unat N \<and>
     (\<forall>i<unat N. buffer s ! ((unat (head s) + i) mod unat N) =
        (if i < length q then Some (q ! i) else None))"


section \<open>The elementwise add kernels of \<^verbatim>\<open>simd/intrinsics.h\<close>\<close>

text \<open>
  The kernels add two arrays of \<^verbatim>\<open>double\<close> into a third. What the claim about them
  depends on is which elements are read and written, not how a sum is rounded, so
  the element type is a parameter \<open>'a\<close>, IEEE addition is the parameter \<open>fadd\<close> and
  \<open>+0.0\<close> is the parameter \<open>fzero\<close>. The arrays behind the pointers \<^verbatim>\<open>a\<close>, \<^verbatim>\<open>b\<close> and
  \<^verbatim>\<open>out\<close> are lists (\<open>out\<close> is the output array before the call, distinct from the
  inputs); an access beyond the end of an array is \<open>None\<close>. The counters \<^verbatim>\<open>i\<close> and
  \<^verbatim>\<open>n\<close> are natural numbers: \<^verbatim>\<open>i\<close> is a multiple of 32 below \<^verbatim>\<open>n\<close>, so \<^verbatim>\<open>i + 31\<close> does
  not wrap in \<^verbatim>\<open>size_t\<close>. A 512-bit register is the list of its 8 lanes, lane 0
  first.
\<close>

type_synonym 'a m512d = "'a list"

type_synonym mmask8 = "8 word"

definition mm512_loadu_pd :: "'a list \<Rightarrow> nat \<Rightarrow> 'a m512d option" where
  "mm512_loadu_pd p i = (if i + 8 \<le> length p then Some (take 8 (drop i p)) else None)"

definition mm512_storeu_pd :: "'a list \<Rightarrow> nat \<Rightarrow> 'a m512d \<Rightarrow> 'a list option" where
  "mm512_storeu_pd p i r =
     (if i + 8 \<le> length p then Some (take i p @ take 8 r @ drop (i + 8) p) else None)"

definition mm512_add_pd :: "('a \<Rightarrow> 'a \<Rightarrow> 'a) \<Rightarrow> 'a m512d \<Rightarrow> 'a m512d \<Rightarrow> 'a m512d" where
  "mm512_add_pd fadd x y = map (\<lambda>(u, v). fadd u v) (zip x y)"

text \<open>
  The masked load reads lane \<open>j\<close> from memory when bit \<open>j\<close> of the mask is set and
  zeroes it otherwise; the masked store writes lane \<open>j\<close> when bit \<open>j\<close> is set and
  leaves memory alone otherwise. Lanes that are masked off touch no memory.
\<close>

definition mm512_maskz_loadu_pd :: "'a \<Rightarrow> mmask8 \<Rightarrow> 'a list \<Rightarrow> nat \<Rightarrow> 'a m512d option" where
  "mm512_maskz_loadu_pd fzero k p i =
     those (map (\<lambda>j. if bit k j
                      then (if i + j < length p then Some (p ! (i + j)) else None)
                      else Some fzero) [0..<8])"

definition mm512_mask_storeu_pd :: "'a list \<Rightarrow> nat \<Rightarrow> mmask8 \<Rightarrow> 'a m512d \<Rightarrow> 'a list option" where
  "mm512_mask_storeu_pd p i k r =
     (if list_all (\<lambda>j. if bit k j then i + j < length p else True) [0..<8]
      then Some (fold (\<lambda>j q. if bit k j then q[i + j := r ! j] else q) [0..<8] p)
      else None)"

text \<open>
  One of the four groups of the unrolled loop body: load 8 lanes of \<^verbatim>\<open>a\<close> and of
  \<^verbatim>\<open>b\<close> at offset \<open>i\<close>, add them, store the 8 sums to \<^verbatim>\<open>out\<close> at offset \<open>i\<close>.
\<close>

definition add_lanes ::
  "('a \<Rightarrow> 'a \<Rightarrow> 'a) \<Rightarrow> 'a list \<Rightarrow> 'a list \<Rightarrow> nat \<Rightarrow> 'a list \<Rightarrow> 'a list option" where
  "add_lanes fadd a b i out =
     (case mm512_loadu_pd a i of
        None \<Rightarrow> None
      | Some a0 \<Rightarrow>
          (case mm512_loadu_pd b i of
             None \<Rightarrow> None
           | Some b0 \<Rightarrow> mm512_storeu_pd out i (mm512_add_pd fadd a0 b0)))"

text \<open>
  \<^verbatim>\<open>for (; i + 31 < n; i += 32) { ... }\<close>: the result is the counter and the output
  array when the loop is left.
\<close>

function add_unrolled ::
  "('a \<Rightarrow> 'a \<Rightarrow> 'a) \<Rightarrow> 'a list \<Rightarrow> 'a list \<Rightarrow> nat \<Rightarrow> nat \<Rightarrow> 'a list \<Rightarrow> (nat \<times> 'a list) option" where
  "add_unrolled fadd a b n i out =
     (if i + 31 < n
      then (case add_lanes fadd a b i out of
              None \<Rightarrow> None
            | Some out0 \<Rightarrow>
                (case add_lanes fadd a b (i + 8) out0 of
                   None \<Rightarrow> None
                 | Some out1 \<Rightarrow>
                     (case add_lanes fadd a b (i + 16) out1 of
                        None \<Rightarrow> None
                      | Some out2 \<Rightarrow>
                          (case add_lanes fadd a b (i + 24) out2 of
                             None \<Rightarrow> None
                           | Some out3 \<Rightarrow> add_unrolled fadd a b n (i + 32) out3))))
      else Some (i, out))"
  by pat_completeness auto
termination
  by (relation "measure (\<lambda>(fadd, a, b, n, i, out). n - i)") auto

text \<open>
  \<^verbatim>\<open>MathKernel<ISA::AVX512_F>::add\<close>. After the loop, \<^verbatim>\<open>uint8_t remaining = n - i\<close>
  and \<^verbatim>\<open>__mmask8 mask = (1 << remaining) - 1\<close>: the shift and the subtraction are done
  in 32-bit \<^verbatim>\<open>int\<close> and the result is truncated to the 8 bits of the mask.
\<close>

definition MathKernel_AVX512_F_add ::
  "('a \<Rightarrow> 'a \<Rightarrow> 'a) \<Rightarrow> 'a \<Rightarrow> 'a list \<Rightarrow> 'a list \<Rightarrow> 'a list \<Rightarrow> nat \<Rightarrow> 'a list option" where
  "MathKernel_AVX512_F_add fadd fzero a b out n =
     (case add_unrolled fadd a b n 0 out of
        None \<Rightarrow> None
      | Some (i, out') \<Rightarrow>
          if i < n
          then (let remaining = (of_nat (n - i) :: 8 word);
                    mask = (ucast (push_bit (unat remaining) (1 :: 32 word) - 1) :: mmask8)
                in (case mm512_maskz_loadu_pd fzero mask a i of
                      None \<Rightarrow> None
                    | Some a_rem \<Rightarrow>
                        (case mm512_maskz_loadu_pd fzero mask b i of
                           None \<Rightarrow> None
                         | Some b_rem \<Rightarrow>
                             mm512_mask_storeu_pd out' i mask (mm512_add_pd fadd a_rem b_rem))))
          else Some out')"

text \<open>
  The scalar fallback \<^verbatim>\<open>MathKernel<>::add\<close>:
  \<^verbatim>\<open>for (size_t i = 0; i < n; ++i) out[i] = a[i] + b[i];\<close>
\<close>

definition MathKernel_add ::
  "('a \<Rightarrow> 'a \<Rightarrow> 'a) \<Rightarrow> 'a list \<Rightarrow> 'a list \<Rightarrow> 'a list \<Rightarrow> nat \<Rightarrow> 'a list option" where
  "MathKernel_add fadd a b out n =
     fold (\<lambda>i r. case r of
                    None \<Rightarrow> None
                  | Some q \<Rightarrow>
                      if i < length a \<and> i < length b \<and> i < length q
                      then Some (q[i := fadd (a ! i) (b ! i)]) else None)
          [0..<n] (Some out)"

section \<open>Cursor arithmetic\<close>

lemma nat_pow2_of_and: "0 < (n::nat) \<Longrightarrow> n AND (n - 1) = 0 \<Longrightarrow> \<exists>k. n = 2 ^ k"
proof (induction n rule: less_induct)
  case (less n)
  show ?case
  proof (cases "even n")
    case True
    then obtain m where m: "n = 2 * m" by (elim evenE)
    with less.prems have m0: "0 < m" by simp
    have n1: "n - 1 = 2 * (m - 1) + 1" using m m0 by simp
    have "n AND (n - 1) = 2 * (m AND (m - 1))"
      unfolding n1 unfolding m
      by (simp add: and_nat_unfold[of "2 * m"] m0) 
    with less.prems have "m AND (m - 1) = 0" by simp
    with less.IH[of m] m m0 obtain k where "m = 2 ^ k" by auto
    with m have "n = 2 ^ (Suc k)" by simp
    then show ?thesis by blast
  next
    case False
    then obtain m where m: "n = 2 * m + 1" by (elim oddE)
    have "n AND (n - 1) = 2 * m"
      unfolding m by (simp add: and_nat_rec[of "Suc (2 * m)"])
    with less.prems have "m = 0" by simp
    with m have "n = 2 ^ 0" by simp
    then show ?thesis by blast
  qed
qed

lemma sa_pow2: "static_assert_Capacity N \<Longrightarrow> \<exists>k<64. N = 2 ^ k"
proof -
  assume a: "static_assert_Capacity N"
  then have n0: "N \<noteq> 0" and z: "N AND (N - 1) = 0" by (auto simp: static_assert_Capacity_def)
  have "unat N AND (unat N - 1) = unat (N AND (N - 1))"
    using n0 by (simp add: unsigned_and_eq unat_minus_one)
  with z have "unat N AND (unat N - 1) = 0" by simp
  moreover have "0 < unat N" using n0 by (simp add: unat_gt_0)
  ultimately obtain k where k: "unat N = 2 ^ k" using nat_pow2_of_and by blast
  have lt: "unat N < 2 ^ 64" using unsigned_less[of N] by simp
  have k64: "k < 64"
  proof (rule ccontr)
    assume "\<not> k < 64"
    then have "(2::nat) ^ 64 \<le> 2 ^ k" by (intro power_increasing) auto
    with k lt show False by simp
  qed
  have "N = of_nat (unat N)" by simp
  also have "\<dots> = 2 ^ k" unfolding k by simp
  finally show ?thesis using k64 by blast
qed

lemma unat_pow2: "k < 64 \<Longrightarrow> unat (2 ^ k :: 64 word) = 2 ^ k"
proof -
  assume k: "k < 64"
  have lt: "(2::nat) ^ k < 2 ^ LENGTH(64)"
    using k by (intro power_strict_increasing) auto
  have "unat (2 ^ k :: 64 word) = unat (of_nat (2 ^ k) :: 64 word)" by simp
  also have "\<dots> = 2 ^ k mod 2 ^ LENGTH(64)" by (rule unat_of_nat)
  also have "\<dots> = 2 ^ k" using lt by (rule mod_less)
  finally show ?thesis .
qed

lemma mask_mod: "k < 64 \<Longrightarrow> unat (x AND (2 ^ k - 1 :: 64 word)) = unat x mod 2 ^ k"
  by (simp add: unat_mod unat_pow2 flip: mask_eq_exp_minus_1 take_bit_eq_mask add: unsigned_take_bit_eq take_bit_eq_mod)

lemma pow2_sa: "k < 64 \<Longrightarrow> static_assert_Capacity (2 ^ k)"
proof -
  assume k: "k < 64"
  have "unat ((2 ^ k :: 64 word) AND (2 ^ k - 1)) = 0"
    using k by (simp add: mask_mod unat_pow2)
  then have "(2 ^ k :: 64 word) AND (2 ^ k - 1) = 0" by (simp add: unat_eq_0)
  moreover have "(2 ^ k :: 64 word) \<noteq> 0" using k by simp
  ultimately show ?thesis by (simp add: static_assert_Capacity_def)
qed

lemma next_mod:
  assumes "static_assert_Capacity N"
  shows "unat ((c + 1) AND (N - 1)) = (unat c + 1) mod unat N"
proof -
  from assms obtain k where k: "k < 64" "N = 2 ^ k" using sa_pow2 by blast
  have d: "(2::nat) ^ k dvd 2 ^ LENGTH(64)" using k by (intro le_imp_power_dvd) simp
  have "unat ((c + 1) AND (N - 1)) = unat (c + 1) mod 2 ^ k"
    using k by (simp add: mask_mod)
  also have "unat (c + 1) = (unat c + 1) mod 2 ^ LENGTH(64)"
    using unat_word_ariths(1)[of c 1] by (simp only: unsigned_1)
  also have "(unat c + 1) mod 2 ^ LENGTH(64) mod 2 ^ k = (unat c + 1) mod 2 ^ k"
    using d by (rule mod_mod_cancel)
  also have "2 ^ k = unat N" using k by (simp add: unat_pow2)
  finally show ?thesis .
qed

section \<open>The invariant is kept by every operation\<close>

lemma mod_add_inj_le:
  "(i::nat) \<le> j \<Longrightarrow> j < n \<Longrightarrow> (h + i) mod n = (h + j) mod n \<Longrightarrow> i = j"
proof -
  assume le: "i \<le> j" and j: "j < n" and eq: "(h + i) mod n = (h + j) mod n"
  have "n dvd (h + j) - (h + i)"
    using le eq by (subst mod_eq_dvd_iff_nat[symmetric]) auto
  then have "n dvd j - i" by simp
  moreover have "j - i < n" using j by simp
  ultimately have "j - i = 0" by (meson dvd_imp_le not_less zero_less_iff_neq_zero)
  with le show ?thesis by simp
qed

lemma mod_add_inj:
  "(i::nat) < n \<Longrightarrow> j < n \<Longrightarrow> (h + i) mod n = (h + j) mod n \<Longrightarrow> i = j"
  using mod_add_inj_le[of i j n h] mod_add_inj_le[of j i n h]
  by (cases "i \<le> j") auto

lemma storage_slots_no_wrap:
  assumes "sz \<noteq> 0" and "unat sz * unat N < 2 ^ 64"
  shows "storage_slots sz N = unat N"
proof -
  have "unat (sz * N) = unat sz * unat N mod 2 ^ LENGTH(64)"
    by (rule unat_word_ariths(2))
  also have "\<dots> = unat sz * unat N" using assms(2) by simp
  finally show ?thesis using assms(1) by (simp add: storage_slots_def unat_eq_0)
qed

lemma rb_inv_fresh:
  assumes "static_assert_Capacity N" and "sz \<noteq> 0" and "unat sz * unat N < 2 ^ 64"
  shows "rb_inv N (fresh sz N) []"
  using assms(1) storage_slots_no_wrap[OF assms(2,3)]
  by (auto simp: rb_inv_def fresh_def static_assert_Capacity_def unat_gt_0)





lemma push_full:
  assumes sa: "static_assert_Capacity N" and inv: "rb_inv N s q" and len: "Suc (length q) = unat N"
  shows "try_push N s x = Inr (False, Some x, s)"
proof -
  have "unat ((tail s + 1) AND (N - 1)) = (unat (tail s) + 1) mod unat N"
    using sa by (rule next_mod)
  also have "\<dots> = Suc (unat (head s) + length q) mod unat N"
    using inv by (simp add: rb_inv_def mod_Suc_eq)
  also have "Suc (unat (head s) + length q) = unat (head s) + unat N"
    using len by simp
  also have "(unat (head s) + unat N) mod unat N = unat (head s)"
    using inv by (simp add: rb_inv_def)
  finally have "(tail s + 1) AND (N - 1) = head s" by (simp only: word_unat_eq_iff)
  then show ?thesis by (simp add: try_push_def)
qed

lemma push_ok:
  assumes sa: "static_assert_Capacity N" and inv: "rb_inv N s q" and len: "Suc (length q) < unat N"
  shows "\<exists>s'. try_push N s x = Inr (True, None, s') \<and> rb_inv N s' (q @ [x])"
proof -
  let ?n = "unat N" and ?h = "unat (head s)" and ?t = "unat (tail s)"
  let ?s' = "s\<lparr>buffer := (buffer s)[?t := Some x], tail := (tail s + 1) AND (N - 1)\<rparr>"
  have t: "?t = (?h + length q) mod ?n" and h: "?h < ?n" and lb: "length (buffer s) = ?n"
    using inv by (auto simp: rb_inv_def)
  have nt: "unat ((tail s + 1) AND (N - 1)) = Suc (?h + length q) mod ?n"
    using next_mod[OF sa, of "tail s"] t by (simp add: mod_Suc_eq)
  have "Suc (?h + length q) mod ?n \<noteq> ?h"
    using mod_add_inj[of "Suc (length q)" ?n 0 ?h] len h by auto
  with nt have "(tail s + 1) AND (N - 1) \<noteq> head s" by auto
  moreover have "?t < length (buffer s)" using t lb h by simp
  ultimately have r: "try_push N s x = Inr (True, None, ?s')"
    by (simp add: try_push_def Let_def)
  have slots: "buffer ?s' ! ((?h + i) mod ?n) =
      (if i < length (q @ [x]) then Some ((q @ [x]) ! i) else None)" if i: "i < ?n" for i
  proof (cases "i = length q")
    case True
    then show ?thesis using t lb h by (simp add: nth_append)
  next
    case False
    then have "(?h + i) mod ?n \<noteq> ?t"
      using mod_add_inj[of i ?n "length q" ?h] i len t by auto
    then show ?thesis using inv i False by (auto simp: rb_inv_def nth_append)
  qed
  have "rb_inv N ?s' (q @ [x])"
    unfolding rb_inv_def using slots nt h lb len by simp
  with r show ?thesis by blast
qed

lemma pop_empty: "rb_inv N s [] \<Longrightarrow> try_pop N s x = Inr (False, x, s)"
proof -
  assume "rb_inv N s []"
  then have "unat (tail s) = unat (head s)" by (simp add: rb_inv_def)
  then have "head s = tail s" by (simp only: word_unat_eq_iff)
  then show ?thesis by (simp add: try_pop_def)
qed

lemma pop_ok:
  assumes sa: "static_assert_Capacity N" and inv: "rb_inv N s (y # q)"
  shows "\<exists>s'. try_pop N s x = Inr (True, y, s') \<and> rb_inv N s' q"
proof -
  let ?n = "unat N" and ?h = "unat (head s)" and ?t = "unat (tail s)"
  let ?s' = "s\<lparr>buffer := (buffer s)[?h := None], head := (head s + 1) AND (N - 1)\<rparr>"
  have t: "?t = (?h + Suc (length q)) mod ?n" and h: "?h < ?n" and lb: "length (buffer s) = ?n"
    and len: "Suc (length q) < ?n"
    using inv by (auto simp: rb_inv_def)
  have slot: "buffer s ! ((?h + i) mod ?n) =
      (if i < Suc (length q) then Some ((y # q) ! i) else None)" if "i < ?n" for i
    using inv that by (simp add: rb_inv_def)
  have "?t \<noteq> ?h"
    using mod_add_inj[of "Suc (length q)" ?n 0 ?h] len h t by auto
  then have ne: "head s \<noteq> tail s" by auto
  have "buffer s ! ?h = Some y" using slot[of 0] h by simp
  with ne h lb have r: "try_pop N s x = Inr (True, y, ?s')"
    by (simp add: try_pop_def Let_def)
  have nh: "unat ((head s + 1) AND (N - 1)) = Suc ?h mod ?n"
    using next_mod[OF sa, of "head s"] by simp
  have t': "?t = (Suc ?h mod ?n + length q) mod ?n"
    using t by (simp add: mod_add_left_eq)
  have slots: "buffer ?s' ! ((Suc ?h mod ?n + i) mod ?n) =
      (if i < length q then Some (q ! i) else None)" if i: "i < ?n" for i
  proof -
    have idx: "(Suc ?h mod ?n + i) mod ?n = (?h + Suc i) mod ?n"
      by (simp add: mod_add_left_eq)
    show ?thesis
    proof (cases "Suc i = ?n")
      case True
      then have "(?h + Suc i) mod ?n = ?h" using h by simp
      then show ?thesis using idx True len h lb by simp
    next
      case False
      with i have si: "Suc i < ?n" by simp
      then have "(?h + Suc i) mod ?n \<noteq> ?h"
        using mod_add_inj[of "Suc i" ?n 0 ?h] h by auto
      then show ?thesis using idx slot[OF si] by simp
    qed
  qed
  have "rb_inv N ?s' q"
    unfolding rb_inv_def using slots nh t' h lb len by simp
  with r show ?thesis by blast
qed

lemma sends_Cons: "sends (c # cs) (r # rs) = sends [c] [r] @ sends cs rs"
  by (cases "(c # cs, r # rs)" rule: sends.cases) auto

lemma receives_Cons: "receives (r # rs) = receives [r] @ receives rs"
  by (cases "r # rs" rule: receives.cases) auto

lemma do_call_inv:
  assumes sa: "static_assert_Capacity N" and inv: "rb_inv N s q"
  shows "\<exists>r s' q'. do_call N s c = Inr (r, s') \<and> rb_inv N s' q' \<and>
           q @ sends [c] [r] = receives [r] @ q'"
proof (cases c)
  case (TrySend x)
  have "Suc (length q) = unat N \<or> Suc (length q) < unat N"
    using inv by (auto simp: rb_inv_def)
  then show ?thesis
  proof
    assume "Suc (length q) = unat N"
    then have "try_push N s x = Inr (False, Some x, s)" using sa inv by (intro push_full)
    then have "do_call N s c = Inr (SendRet False, s)" by (simp add: do_call_def TrySend)
    with inv TrySend show ?thesis by fastforce
  next
    assume "Suc (length q) < unat N"
    then obtain s' where "try_push N s x = Inr (True, None, s')" "rb_inv N s' (q @ [x])"
      using push_ok[OF sa inv] by blast
    then have "do_call N s c = Inr (SendRet True, s') \<and> rb_inv N s' (q @ [x])"
      by (simp add: do_call_def TrySend)
    with TrySend show ?thesis by fastforce
  qed
next
  case (TryReceive x)
  show ?thesis
  proof (cases q)
    case Nil
    then have "try_pop N s x = Inr (False, x, s)" using inv by (intro pop_empty) simp
    then have "do_call N s c = Inr (ReceiveRet False x, s)" by (simp add: do_call_def TryReceive)
    with inv Nil show ?thesis by fastforce
  next
    case (Cons y q')
    then obtain s' where "try_pop N s x = Inr (True, y, s')" "rb_inv N s' q'"
      using pop_ok[OF sa, of s y q' x] inv by blast
    then have "do_call N s c = Inr (ReceiveRet True y, s') \<and> rb_inv N s' q'"
      by (simp add: do_call_def TryReceive)
    with Cons show ?thesis by fastforce
  qed
qed

lemma run_inv:
  assumes sa: "static_assert_Capacity N"
  shows "rb_inv N s q \<Longrightarrow>
    \<exists>rs s' q'. run N s cs = Inr (rs, s') \<and> length rs = length cs \<and> rb_inv N s' q' \<and>
       q @ sends cs rs = receives rs @ q'"
proof (induction cs arbitrary: s q)
  case Nil
  then show ?case by auto
next
  case (Cons c cs)
  obtain r s1 q1 where 1: "do_call N s c = Inr (r, s1)" "rb_inv N s1 q1"
      "q @ sends [c] [r] = receives [r] @ q1"
    using do_call_inv[OF sa Cons.prems] by blast
  obtain rs s2 q2 where 2: "run N s1 cs = Inr (rs, s2)" "length rs = length cs" "rb_inv N s2 q2"
      "q1 @ sends cs rs = receives rs @ q2"
    using Cons.IH[OF 1(2)] by blast
  have "run N s (c # cs) = Inr (r # rs, s2)" using 1(1) 2(1) by simp
  moreover have "q @ sends (c # cs) (r # rs) = receives (r # rs) @ q2"
    using 1(3) 2(4) by (metis sends_Cons receives_Cons append.assoc)
  ultimately show ?case using 2(2,3) by fastforce
qed

lemma rb_inv_empty_iff:
  assumes "rb_inv N s q"
  shows "head s = tail s \<longleftrightarrow> q = []"
proof
  assume "head s = tail s"
  then have "(unat (head s) + length q) mod unat N = (unat (head s) + 0) mod unat N"
    using assms by (simp add: rb_inv_def)
  then have "length q = 0"
    using assms by (intro mod_add_inj[of "length q" "unat N" 0 "unat (head s)"]) (auto simp: rb_inv_def)
  then show "q = []" by simp
next
  assume "q = []"
  then have "unat (tail s) = unat (head s)" using assms by (simp add: rb_inv_def)
  then show "head s = tail s" by (simp only: word_unat_eq_iff)
qed


lemma unat_ge_2: "static_assert_Capacity N \<Longrightarrow> N \<noteq> 1 \<Longrightarrow> 2 \<le> unat N"
proof -
  assume "static_assert_Capacity N" "N \<noteq> 1"
  then have "unat N \<noteq> unat (0 :: size_t)" "unat N \<noteq> unat (1 :: size_t)"
    unfolding word_unat_eq_iff[symmetric] by (auto simp: static_assert_Capacity_def)
  then show ?thesis by simp
qed

section \<open>Live slots\<close>




section \<open>Claims about the ring buffer\<close>





lemma try_push_False:
  "try_push N s x = Inr (False, it, s1) \<Longrightarrow>
     (tail s + 1) AND (N - 1) = head s \<and> it = Some x \<and> s1 = s"
  unfolding try_push_def Let_def by (simp split: if_splits)

lemma try_pop_False:
  "try_pop N s y = Inr (False, z, s1) \<Longrightarrow> head s = tail s \<and> z = y \<and> s1 = s"
  unfolding try_pop_def Let_def by (simp split: if_splits option.splits)

text \<open>
  Claim C3 (failure leaves the state unchanged). In every state, whatever the item:
  when \<^verbatim>\<open>try_push\<close> finds the next write position equal to the read cursor it
  returns \<open>false\<close>, the buffer (both cursors and every slot) is the one it was given
  and the caller still holds the item, untouched; and these are the only calls of
  \<^verbatim>\<open>try_push\<close> that return \<open>false\<close>. When \<^verbatim>\<open>try_pop\<close> finds the read cursor equal
  to the write cursor it returns \<open>false\<close>, the caller's variable and the buffer are
  unchanged; and these are the only calls of \<^verbatim>\<open>try_pop\<close> that return \<open>false\<close>.
\<close>

theorem full_and_empty_leave_state:
  "((tail s + 1) AND (N - 1) = head s \<longrightarrow> try_push N s x = Inr (False, Some x, s)) \<and>
   (\<forall>it s1. try_push N s x = Inr (False, it, s1) \<longrightarrow>
      (tail s + 1) AND (N - 1) = head s \<and> it = Some x \<and> s1 = s) \<and>
   (head s' = tail s' \<longrightarrow> try_pop N s' y = Inr (False, y, s')) \<and>
   (\<forall>z s1. try_pop N s' y = Inr (False, z, s1) \<longrightarrow> head s' = tail s' \<and> z = y \<and> s1 = s')"
proof -
  have 1: "(tail s + 1) AND (N - 1) = head s \<longrightarrow> try_push N s x = Inr (False, Some x, s)"
    by (simp add: try_push_def)
  have 2: "\<forall>it s1. try_push N s x = Inr (False, it, s1) \<longrightarrow>
      (tail s + 1) AND (N - 1) = head s \<and> it = Some x \<and> s1 = s"
    by (intro allI impI) (rule try_push_False)
  have 3: "head s' = tail s' \<longrightarrow> try_pop N s' y = Inr (False, y, s')"
    by (simp add: try_pop_def)
  have 4: "\<forall>z s1. try_pop N s' y = Inr (False, z, s1) \<longrightarrow> head s' = tail s' \<and> z = y \<and> s1 = s'"
    by (intro allI impI) (rule try_pop_False)
  from 1 2 3 4 show ?thesis by (intro conjI)
qed

theorem full_and_empty_leave_state_witness:
  "try_push 4 \<lparr>head = 0, tail = 3, buffer = [Some 1, Some 2, Some 3, None]\<rparr> (7::int) =
     Inr (False, Some 7, \<lparr>head = 0, tail = 3, buffer = [Some 1, Some 2, Some 3, None]\<rparr>) \<and>
   try_pop 4 \<lparr>head = 2, tail = 2, buffer = [None, None, None, None]\<rparr> (7::int) =
     Inr (False, 7, \<lparr>head = 2, tail = 2, buffer = [None, None, None, None]\<rparr>)"
proof -
  let ?f = "\<lparr>head = 0, tail = 3, buffer = [Some 1, Some 2, Some 3, None :: int option]\<rparr>"
  let ?e = "\<lparr>head = 2, tail = 2, buffer = [None, None, None, None :: int option]\<rparr>"
  note t = full_and_empty_leave_state[of ?f 4 7 ?e 7]
  have full: "(tail ?f + 1) AND (4 - 1) = head ?f" by simp
  have empty: "head ?e = tail ?e" by simp
  from t full have "try_push 4 ?f 7 = Inr (False, Some 7, ?f)" by blast
  moreover from t empty have "try_pop 4 ?e 7 = Inr (False, 7, ?e)" by blast
  ultimately show ?thesis by (rule conjI)
qed

text \<open>
  Claim C5 (round trip), as stated, fails: in a state that has a free slot and
  already holds an item, the receive after a successful send of \<open>x\<close> returns the
  older item. After \<^verbatim>\<open>try_push(1)\<close> on a fresh buffer of capacity 4, \<^verbatim>\<open>try_push(2)\<close>
  succeeds and the \<^verbatim>\<open>try_pop\<close> that follows yields 1.
\<close>

theorem round_trip_counterexample:
  "run 4 (fresh 4 4) [TrySend (1::int)] =
     Inr ([SendRet True], \<lparr>head = 0, tail = 1, buffer = [Some 1, None, None, None]\<rparr>) \<and>
   try_push 4 \<lparr>head = 0, tail = 1, buffer = [Some 1, None, None, None]\<rparr> (2::int) =
     Inr (True, None, \<lparr>head = 0, tail = 2, buffer = [Some 1, Some 2, None, None]\<rparr>) \<and>
   try_pop 4 \<lparr>head = 0, tail = 2, buffer = [Some 1, Some 2, None, None]\<rparr> (0::int) =
     Inr (True, 1, \<lparr>head = 1, tail = 2, buffer = [None, Some 2, None, None]\<rparr>) \<and>
   (1::int) \<noteq> 2"
  by code_simp

text \<open>
  Claim C5, amended. For every capacity \<open>N \<noteq> 1\<close> the \<^verbatim>\<open>static_assert\<close> accepts
  (with a storage request \<^verbatim>\<open>sizeof(T) * N\<close> that does not wrap), every item \<open>x\<close> and
  every reachable state in which the buffer is empty (read cursor equal to write
  cursor): \<^verbatim>\<open>try_push\<close> of \<open>x\<close> succeeds, the \<^verbatim>\<open>try_pop\<close> right after it succeeds and
  yields \<open>x\<close>, and the buffer is empty again.
\<close>

theorem round_trip_on_empty:
  assumes sa: "static_assert_Capacity N"
    and sz: "sizeof_T \<noteq> 0" and nw: "unat sizeof_T * unat N < 2 ^ 64" and n1: "N \<noteq> 1"
    and r: "run N (fresh sizeof_T N) cs = Inr (rs, s)" and e: "head s = tail s"
  shows "\<exists>s1 s2. try_push N s x = Inr (True, None, s1) \<and> try_pop N s1 y = Inr (True, x, s2) \<and>
           head s2 = tail s2"
proof -
  obtain q where q: "rb_inv N s q"
    using run_inv[OF sa rb_inv_fresh[OF sa sz nw], of cs] r by auto
  with e have "q = []" by (simp add: rb_inv_empty_iff)
  with q have inv: "rb_inv N s []" by simp
  have "Suc (length ([] :: 'a list)) < unat N" using unat_ge_2[OF sa n1] by simp
  with push_ok[OF sa inv] obtain s1 where 1: "try_push N s x = Inr (True, None, s1)" "rb_inv N s1 [x]"
    by auto
  from pop_ok[OF sa 1(2)] obtain s2 where 2: "try_pop N s1 y = Inr (True, x, s2)" "rb_inv N s2 []"
    by blast
  from 2(2) have "head s2 = tail s2" by (simp add: rb_inv_empty_iff)
  with 1(1) 2(1) show ?thesis by blast
qed

theorem round_trip_on_empty_witness:
  "\<exists>s1 s2. try_push 4 \<lparr>head = 2, tail = 2, buffer = [None, None, None, None]\<rparr> (7::int) = Inr (True, None, s1) \<and>
      try_pop 4 s1 0 = Inr (True, 7, s2) \<and> head s2 = tail s2"
proof -
  have sa: "static_assert_Capacity 4" by (simp add: static_assert_Capacity_def)
  have sz: "(4 :: size_t) \<noteq> 0" by simp
  have nw: "unat (4 :: size_t) * unat (4 :: size_t) < 2 ^ 64" by simp
  have r: "run 4 (fresh 4 4) [TrySend 1, TryReceive 0, TrySend 2, TryReceive (0::int)] =
      Inr ([SendRet True, ReceiveRet True 1, SendRet True, ReceiveRet True 2],
           \<lparr>head = 2, tail = 2, buffer = [None, None, None, None]\<rparr>)"
    by code_simp
  show ?thesis
    by (rule round_trip_on_empty[OF sa sz nw _ r]) simp_all
qed




text \<open>
  Claim C7 (bitmask equals modulo). For every capacity \<open>N\<close> the \<^verbatim>\<open>static_assert\<close>
  accepts and every 64-bit cursor value \<open>c\<close>, \<open>(c + 1) & (N - 1)\<close> is \<open>(c + 1) mod N\<close>
  computed over the natural numbers (the wrap of \<open>c + 1\<close> at \<open>2^64\<close> does not
  matter, since \<open>N\<close> divides \<open>2^64\<close>); so the write cursor after a successful
  \<^verbatim>\<open>try_push\<close> and the read cursor after a successful \<^verbatim>\<open>try_pop\<close> are the old cursor
  plus one modulo \<open>N\<close>.
\<close>

theorem bitmask_is_modulo:
  assumes sa: "static_assert_Capacity N"
  shows "unat ((c + 1) AND (N - 1)) = (unat c + 1) mod unat N \<and>
    (\<forall>s x it s'. try_push N s x = Inr (True, it, s') \<longrightarrow>
        unat (tail s') = (unat (tail s) + 1) mod unat N) \<and>
    (\<forall>s y z s'. try_pop N s y = Inr (True, z, s') \<longrightarrow>
        unat (head s') = (unat (head s) + 1) mod unat N)"
proof (intro conjI allI impI)
  show "unat ((c + 1) AND (N - 1)) = (unat c + 1) mod unat N"
    using sa by (rule next_mod)
next
  fix s :: "'a SPSCRingBuffer" and x it s'
  assume "try_push N s x = Inr (True, it, s')"
  then have "tail s' = (tail s + 1) AND (N - 1)"
    by (auto simp: try_push_def Let_def split: if_splits)
  then show "unat (tail s') = (unat (tail s) + 1) mod unat N"
    using next_mod[OF sa, of "tail s"] by simp
next
  fix s :: "'b SPSCRingBuffer" and y z s'
  assume "try_pop N s y = Inr (True, z, s')"
  then have "head s' = (head s + 1) AND (N - 1)"
    by (auto simp: try_pop_def Let_def split: if_splits option.splits)
  then show "unat (head s') = (unat (head s) + 1) mod unat N"
    using next_mod[OF sa, of "head s"] by simp
qed

theorem bitmask_is_modulo_witness:
  "unat (((7::size_t) + 1) AND (8 - 1)) = (unat (7::size_t) + 1) mod unat (8::size_t)"
proof -
  have sa: "static_assert_Capacity 8" by (simp add: static_assert_Capacity_def)
  from bitmask_is_modulo[OF sa, of 7] show ?thesis by blast
qed


text \<open>
  Claim C8 (admissible capacities), as stated, fails at \<open>N = 1\<close>: the
  \<^verbatim>\<open>static_assert\<close> holds for 1, which is a power of two but not at least 2, and the
  constructor (here for a 4-byte element type) yields a buffer, of one slot.
\<close>

theorem capacity_one_accepted:
  "static_assert_Capacity 1 \<and>
   (SPSCRingBuffer_ctor 4 1 True :: ctor_error + int SPSCRingBuffer) =
     Inr \<lparr>head = 0, tail = 0, buffer = [None]\<rparr> \<and>
   \<not> (2::size_t) \<le> 1"
  by (simp add: static_assert_Capacity_def SPSCRingBuffer_ctor_def fresh_def storage_slots_def
        word_le_nat_alt)

text \<open>
  Claim C8, amended. The \<^verbatim>\<open>static_assert\<close> accepts exactly the capacities \<open>N = 2^k\<close>
  with \<open>0 \<le> k < 64\<close>, the capacity 1 included. For these the constructor returns a
  buffer when the allocation succeeds (the buffer of the storage requested, both
  cursors 0) and throws \<^verbatim>\<open>std::bad_alloc\<close> when it fails; every other capacity, 0
  included, is rejected by the \<^verbatim>\<open>static_assert\<close>, whatever the allocator does.
\<close>

theorem construction_accepts_powers_of_two:
  "(static_assert_Capacity N \<longleftrightarrow> (\<exists>k<64. N = 2 ^ k)) \<and>
   ((\<exists>k<64. N = 2 ^ k) \<longrightarrow>
      (SPSCRingBuffer_ctor sizeof_T N True :: ctor_error + 'a SPSCRingBuffer) =
        Inr (fresh sizeof_T N) \<and>
      (SPSCRingBuffer_ctor sizeof_T N False :: ctor_error + 'a SPSCRingBuffer) = Inl BadAlloc) \<and>
   (\<not> (\<exists>k<64. N = 2 ^ k) \<longrightarrow>
      (SPSCRingBuffer_ctor sizeof_T N alloc_ok :: ctor_error + 'a SPSCRingBuffer) =
        Inl StaticAssertFailed)"
  using sa_pow2[of N] pow2_sa by (auto simp: SPSCRingBuffer_ctor_def)

theorem construction_accepts_powers_of_two_witness:
  "(SPSCRingBuffer_ctor 4 8 True :: ctor_error + int SPSCRingBuffer) = Inr (fresh 4 8) \<and>
   (SPSCRingBuffer_ctor 4 1 True :: ctor_error + int SPSCRingBuffer) = Inr (fresh 4 1) \<and>
   (SPSCRingBuffer_ctor 4 0 True :: ctor_error + int SPSCRingBuffer) = Inl StaticAssertFailed \<and>
   (SPSCRingBuffer_ctor 4 6 True :: ctor_error + int SPSCRingBuffer) = Inl StaticAssertFailed"
proof -
  have p8: "\<exists>k<64. (8::size_t) = 2 ^ k" by (rule exI[of _ 3]) simp
  have p1: "\<exists>k<64. (1::size_t) = 2 ^ k" by (rule exI[of _ 0]) simp
  have n0: "\<not> (\<exists>k<64. (0::size_t) = 2 ^ k)" by simp
  have "\<not> static_assert_Capacity 6" by (simp add: static_assert_Capacity_def)
  then have n6: "\<not> (\<exists>k<64. (6::size_t) = 2 ^ k)"
    using pow2_sa by metis
  from construction_accepts_powers_of_two[of 8 4, where 'a = int] p8
       construction_accepts_powers_of_two[of 1 4, where 'a = int] p1
       construction_accepts_powers_of_two[of 0 4 True, where 'a = int] n0
       construction_accepts_powers_of_two[of 6 4 True, where 'a = int] n6
  show ?thesis by blast
qed

text \<open>
  The storage request can wrap. For a 4-byte element type and the capacity
  \<open>2^62\<close>, which the \<^verbatim>\<open>static_assert\<close> accepts, \<^verbatim>\<open>sizeof(T) * Capacity\<close> is 0 in
  \<^verbatim>\<open>size_t\<close>: the constructor returns a buffer without a single slot, and the first
  \<^verbatim>\<open>try_push\<close> writes outside the storage. The claims about histories therefore
  carry the condition that the request does not wrap.
\<close>

lemma ctor_request_wraps:
  "static_assert_Capacity (2 ^ 62) \<and> (4 :: size_t) * 2 ^ 62 = 0 \<and>
   (SPSCRingBuffer_ctor 4 (2 ^ 62) True :: ctor_error + int SPSCRingBuffer) =
     Inr \<lparr>head = 0, tail = 0, buffer = []\<rparr> \<and>
   try_push (2 ^ 62) \<lparr>head = 0, tail = 0, buffer = []\<rparr> (5::int) = Inl OutOfBounds"
proof -
  have sa: "static_assert_Capacity (2 ^ 62)" by (rule pow2_sa) simp
  have z: "(4 :: size_t) * 2 ^ 62 = 0" by simp
  have c: "(SPSCRingBuffer_ctor 4 (2 ^ 62) True :: ctor_error + int SPSCRingBuffer) =
      Inr \<lparr>head = 0, tail = 0, buffer = []\<rparr>"
    using sa by (simp add: SPSCRingBuffer_ctor_def fresh_def storage_slots_def)
  have "((0 :: size_t) + 1) AND (2 ^ 62 - 1) = 1"
    by (simp flip: mask_eq_exp_minus_1 take_bit_eq_mask)
  then have "try_push (2 ^ 62) \<lparr>head = 0, tail = 0, buffer = []\<rparr> (5::int) = Inl OutOfBounds"
    by (simp add: try_push_def)
  with sa z c show ?thesis by blast
qed

text \<open>
  Claim C10 (capacity 1 is unusable). The \<^verbatim>\<open>static_assert\<close> accepts
  \<^verbatim>\<open>Capacity = 1\<close>. On such a buffer every history runs without a fault, every
  \<^verbatim>\<open>try_push\<close> in it returns \<open>false\<close>, every \<^verbatim>\<open>try_pop\<close> in it returns \<open>false\<close> and
  leaves the caller's variable alone, and the state stays the fresh one (whatever
  the element size), in which
  the next write position \<open>(tail + 1) & 0\<close> is the read cursor.
\<close>

theorem capacity_one_unusable:
  "static_assert_Capacity 1 \<and>
   run 1 (fresh sizeof_T 1) cs =
     Inr (map (\<lambda>c. case c of TrySend x \<Rightarrow> SendRet False | TryReceive x \<Rightarrow> ReceiveRet False x) cs,
          fresh sizeof_T 1) \<and>
   (tail (fresh sizeof_T 1 :: 'a SPSCRingBuffer) + 1) AND (1 - 1) =
     head (fresh sizeof_T 1 :: 'a SPSCRingBuffer)"
proof -
  have "run 1 (fresh sizeof_T 1) cs =
     Inr (map (\<lambda>c. case c of TrySend x \<Rightarrow> SendRet False | TryReceive x \<Rightarrow> ReceiveRet False x) cs,
          fresh sizeof_T 1)"
    by (induction cs) (auto simp: do_call_def try_push_def try_pop_def fresh_def split: call.splits)
  then show ?thesis by (simp add: static_assert_Capacity_def fresh_def)
qed

theorem capacity_one_unusable_witness:
  "run 1 (fresh 4 1) [TrySend (5::int), TryReceive 0, TrySend 6] =
     Inr ([SendRet False, ReceiveRet False 0, SendRet False], fresh 4 1)"
proof -
  have m: "map (\<lambda>c. case c of TrySend x \<Rightarrow> SendRet False | TryReceive x \<Rightarrow> ReceiveRet False x)
      [TrySend (5::int), TryReceive 0, TrySend 6] = [SendRet False, ReceiveRet False 0, SendRet False]"
    by simp
  from capacity_one_unusable[of 4 "[TrySend (5::int), TryReceive 0, TrySend 6]"]
  show ?thesis unfolding m by (rule conjunct1[OF conjunct2])
qed

section \<open>Claims about the add kernels\<close>

text \<open>
  Both kernels are run on arrays of exactly \<open>n\<close> elements. The scalar kernel
  writes the sum at every index. The AVX-512 kernel writes the sums up to index
  \<open>32 * (n div 32) + min (n mod 32) 8\<close> and leaves the rest of \<open>out\<close> as it was: the
  unrolled loop covers the multiples of 32 and the masked cleanup at most 8 more
  elements. So the kernels agree when \<open>n mod 32 \<le> 8\<close>, and when \<open>n mod 32 > 8\<close> the
  AVX-512 kernel never writes the last \<open>n mod 32 - 8\<close> elements.
\<close>

lemma update_frontier:
  assumes "k < length z" "length out = length z"
  shows "(take k z @ drop k out)[k := z ! k] = take (Suc k) z @ drop (Suc k) out"
proof -
  have "drop k out = out ! k # drop (Suc k) out"
    using assms by (simp add: Cons_nth_drop_Suc)
  then have "(take k z @ drop k out)[k := z ! k] = take k z @ (z ! k # drop (Suc k) out)"
    using assms by (simp add: list_update_append)
  also have "\<dots> = take (Suc k) z @ drop (Suc k) out"
    using assms by (simp add: take_Suc_conv_app_nth)
  finally show ?thesis .
qed

lemma scalar_prefix:
  assumes "length a = n" "length b = n" "length out = n"
  shows "k \<le> n \<Longrightarrow>
    fold (\<lambda>i r. case r of None \<Rightarrow> None
                 | Some q \<Rightarrow> if i < length a \<and> i < length b \<and> i < length q
                     then Some (q[i := fadd (a ! i) (b ! i)]) else None) [0..<k] (Some out)
    = Some (take k (map (\<lambda>(u, v). fadd u v) (zip a b)) @ drop k out)"
proof (induction k)
  case 0
  then show ?case by simp
next
  case (Suc k)
  let ?z = "map (\<lambda>(u, v). fadd u v) (zip a b)"
  have k: "k < n" using Suc.prems by simp
  have zk: "?z ! k = fadd (a ! k) (b ! k)" using k assms by simp
  have "(take k ?z @ drop k out)[k := ?z ! k] = take (Suc k) ?z @ drop (Suc k) out"
    using k assms by (intro update_frontier) auto
  then show ?case using Suc.IH k assms zk by simp
qed

lemma scalar_add_total:
  assumes "length a = n" "length b = n" "length out = n"
  shows "MathKernel_add fadd a b out n = Some (map (\<lambda>(u, v). fadd u v) (zip a b))"
proof -
  let ?z = "map (\<lambda>(u, v). fadd u v) (zip a b)"
  have "MathKernel_add fadd a b out n = Some (take n ?z @ drop n out)"
    unfolding MathKernel_add_def by (rule scalar_prefix[OF assms order_refl])
  also have "take n ?z @ drop n out = ?z" using assms by simp
  finally show ?thesis .
qed

lemma add_lanes_frontier:
  assumes "length a = n" "length b = n" "length out = n" "i + 8 \<le> n"
  shows "add_lanes fadd a b i (take i (map (\<lambda>(u, v). fadd u v) (zip a b)) @ drop i out)
    = Some (take (i + 8) (map (\<lambda>(u, v). fadd u v) (zip a b)) @ drop (i + 8) out)"
proof -
  let ?z = "map (\<lambda>(u, v). fadd u v) (zip a b)"
  have s: "mm512_add_pd fadd (take 8 (drop i a)) (take 8 (drop i b)) = take 8 (drop i ?z)"
    by (simp add: mm512_add_pd_def take_zip drop_zip take_map drop_map)
  have "take i (take i ?z @ drop i out) = take i ?z" using assms by simp
  moreover have "drop (i + 8) (take i ?z @ drop i out) = drop (i + 8) out"
    using assms by (simp add: add.commute)
  moreover have "take i ?z @ take 8 (take 8 (drop i ?z)) = take (i + 8) ?z"
    by (simp add: take_add)
  ultimately show ?thesis
    using assms s by (simp add: add_lanes_def mm512_loadu_pd_def mm512_storeu_pd_def)
qed

lemma add_unrolled_frontier:
  assumes "length a = n" "length b = n" "length out = n"
  shows "i \<le> n \<Longrightarrow>
    add_unrolled fadd a b n i (take i (map (\<lambda>(u, v). fadd u v) (zip a b)) @ drop i out)
    = Some (i + 32 * ((n - i) div 32),
            take (i + 32 * ((n - i) div 32)) (map (\<lambda>(u, v). fadd u v) (zip a b)) @
            drop (i + 32 * ((n - i) div 32)) out)"
proof (induction "n - i" arbitrary: i rule: less_induct)
  case less
  let ?z = "map (\<lambda>(u, v). fadd u v) (zip a b)"
  show ?case
  proof (cases "i + 31 < n")
    case False
    then have "(n - i) div 32 = 0" using less.prems by simp
    with False show ?thesis by (simp add: add_unrolled.simps[of fadd a b n i])
  next
    case True
    have l0: "add_lanes fadd a b i (take i ?z @ drop i out) = Some (take (i + 8) ?z @ drop (i + 8) out)"
      using True by (intro add_lanes_frontier[OF assms]) simp
    have l1: "add_lanes fadd a b (i + 8) (take (i + 8) ?z @ drop (i + 8) out) =
        Some (take (i + 16) ?z @ drop (i + 16) out)"
      using True add_lanes_frontier[OF assms, of "i + 8" fadd] by (simp add: add.assoc)
    have l2: "add_lanes fadd a b (i + 16) (take (i + 16) ?z @ drop (i + 16) out) =
        Some (take (i + 24) ?z @ drop (i + 24) out)"
      using True add_lanes_frontier[OF assms, of "i + 16" fadd] by (simp add: add.assoc)
    have l3: "add_lanes fadd a b (i + 24) (take (i + 24) ?z @ drop (i + 24) out) =
        Some (take (i + 32) ?z @ drop (i + 32) out)"
      using True add_lanes_frontier[OF assms, of "i + 24" fadd] by (simp add: add.assoc)
    have step: "add_unrolled fadd a b n i (take i ?z @ drop i out) =
        add_unrolled fadd a b n (i + 32) (take (i + 32) ?z @ drop (i + 32) out)"
      using True by (subst add_unrolled.simps) (simp add: l0 l1 l2 l3)
    have "n - (i + 32) < n - i" using True by simp
    moreover have "i + 32 \<le> n" using True by simp
    ultimately have ih: "add_unrolled fadd a b n (i + 32) (take (i + 32) ?z @ drop (i + 32) out) =
        Some (i + 32 + 32 * ((n - (i + 32)) div 32),
            take (i + 32 + 32 * ((n - (i + 32)) div 32)) ?z @
            drop (i + 32 + 32 * ((n - (i + 32)) div 32)) out)"
      by (rule less.hyps)
    have "i + 32 + 32 * ((n - (i + 32)) div 32) = i + 32 * ((n - i) div 32)"
    proof -
      have "(n - i) div 32 = Suc ((n - i - 32) div 32)"
        using True by (intro le_div_geq) auto
      then show ?thesis by simp
    qed
    with step ih show ?thesis by simp
  qed
qed

lemma cleanup_mask_bit:
  assumes "r < 32"
  shows "bit (ucast (push_bit (unat (of_nat r :: 8 word)) (1 :: 32 word) - 1) :: mmask8) j
    \<longleftrightarrow> j < 8 \<and> j < r"
proof -
  have "unat (of_nat r :: 8 word) = r" using assms by (simp add: unat_of_nat)
  moreover have "push_bit r (1 :: 32 word) - 1 = mask r"
    by (simp add: mask_eq_exp_minus_1 push_bit_eq_mult)
  ultimately show ?thesis using assms by (auto simp: bit_simps)
qed

lemma those_map_Some: "those (map (\<lambda>j. Some (g j)) xs) = Some (map g xs)"
  by (induction xs) auto

lemma maskz_load_lanes:
  assumes m: "\<And>j. bit k j \<longleftrightarrow> j < 8 \<and> j < r" and len: "i + r \<le> length p"
  shows "mm512_maskz_loadu_pd fzero k p i =
    Some (map (\<lambda>j. if j < r then p ! (i + j) else fzero) [0..<8])"
proof -
  have "map (\<lambda>j. if bit k j then (if i + j < length p then Some (p ! (i + j)) else None)
                  else Some fzero) [0..<8]
      = map (\<lambda>j. Some (if j < r then p ! (i + j) else fzero)) [0..<8]"
    using m len by (intro map_cong) auto
  then show ?thesis
    unfolding mm512_maskz_loadu_pd_def by (simp only: those_map_Some)
qed

lemma mask_store_fold:
  assumes m: "\<And>j. bit k j \<longleftrightarrow> j < 8 \<and> j < r" and len: "length out = length z"
    and r: "i + r \<le> length z" and res: "\<And>j. j < r \<Longrightarrow> res ! j = z ! (i + j)"
  shows "c \<le> 8 \<Longrightarrow>
    fold (\<lambda>j q. if bit k j then q[i + j := res ! j] else q) [0..<c] (take i z @ drop i out)
    = take (i + min r c) z @ drop (i + min r c) out"
proof (induction c)
  case 0
  then show ?case by simp
next
  case (Suc c)
  show ?case
  proof (cases "c < r")
    case True
    then have b: "bit k c" using Suc.prems m by simp
    have "(take (i + c) z @ drop (i + c) out)[i + c := z ! (i + c)] =
        take (Suc (i + c)) z @ drop (Suc (i + c)) out"
      using True r len by (intro update_frontier) auto
    moreover have "min r (Suc c) = Suc c" "min r c = c" using True by simp_all
    ultimately show ?thesis using Suc True b res by simp
  next
    case False
    then have "\<not> bit k c" using m by simp
    moreover have "min r (Suc c) = r" "min r c = r" using False by simp_all
    ultimately show ?thesis using Suc by simp
  qed
qed

lemma avx512_add_general:
  assumes "length a = n" "length b = n" "length out = n"
  shows "MathKernel_AVX512_F_add fadd fzero a b out n =
    Some (take (32 * (n div 32) + min (n mod 32) 8) (map (\<lambda>(u, v). fadd u v) (zip a b)) @
          drop (32 * (n div 32) + min (n mod 32) 8) out)"
proof -
  let ?z = "map (\<lambda>(u, v). fadd u v) (zip a b)"
  let ?i = "32 * (n div 32)" and ?r = "n mod 32"
  have lz: "length ?z = n" using assms by simp
  have loop: "add_unrolled fadd a b n 0 out = Some (?i, take ?i ?z @ drop ?i out)"
    using add_unrolled_frontier[OF assms, of 0 fadd] by simp
  have nr: "n - ?i = ?r" by (simp add: minus_mult_div_eq_mod mult.commute)
  show ?thesis
  proof (cases "?i < n")
    case False
    then have "?r = 0" using nr by simp
    with False loop show ?thesis by (simp add: MathKernel_AVX512_F_add_def)
  next
    case True
    let ?k = "ucast (push_bit (unat (of_nat ?r :: 8 word)) (1 :: 32 word) - 1) :: mmask8"
    have m: "bit ?k j \<longleftrightarrow> j < 8 \<and> j < ?r" for j
      by (rule cleanup_mask_bit) simp
    have ir: "?i + ?r \<le> n" by simp
    have la: "mm512_maskz_loadu_pd fzero ?k a ?i =
        Some (map (\<lambda>j. if j < ?r then a ! (?i + j) else fzero) [0..<8])"
      using m ir assms by (intro maskz_load_lanes) auto
    have lb: "mm512_maskz_loadu_pd fzero ?k b ?i =
        Some (map (\<lambda>j. if j < ?r then b ! (?i + j) else fzero) [0..<8])"
      using m ir assms by (intro maskz_load_lanes) auto
    let ?res = "mm512_add_pd fadd (map (\<lambda>j. if j < ?r then a ! (?i + j) else fzero) [0..<8])
                  (map (\<lambda>j. if j < ?r then b ! (?i + j) else fzero) [0..<8])"
    have res: "?res ! j = ?z ! (?i + j)" if "j < ?r" "j < 8" for j
    proof -
      have "?i + ?r = n" by simp
      then have "?i + j < n" using that by linarith
      then show ?thesis using that assms by (simp add: mm512_add_pd_def)
    qed
    have "fold (\<lambda>j q. if bit ?k j then q[?i + j := ?res ! j] else q) [0..<8]
          (take ?i ?z @ drop ?i out) =
        take (?i + min (min ?r 8) 8) ?z @ drop (?i + min (min ?r 8) 8) out"
    proof (rule mask_store_fold[where r = "min ?r 8"])
      show "\<And>j. bit ?k j \<longleftrightarrow> j < 8 \<and> j < min ?r 8" using m by auto
      show "length out = length ?z" using assms by simp
      have "?i + ?r = n" by simp
      then have "?i + min ?r 8 \<le> n" by linarith
      then show "?i + min ?r 8 \<le> length ?z" unfolding lz .
      show "\<And>j. j < min ?r 8 \<Longrightarrow> ?res ! j = ?z ! (?i + j)" using res by simp
      show "(8::nat) \<le> 8" by simp
    qed
    then have st: "fold (\<lambda>j q. if bit ?k j then q[?i + j := ?res ! j] else q) [0..<8]
          (take ?i ?z @ drop ?i out) = take (?i + min ?r 8) ?z @ drop (?i + min ?r 8) out"
      by simp
    have ok: "list_all (\<lambda>j. if bit ?k j then ?i + j < length (take ?i ?z @ drop ?i out) else True)
        [0..<8]"
      unfolding list_all_iff
    proof (intro ballI)
      fix j
      assume "j \<in> set [0..<8]"
      have l: "length (take ?i ?z @ drop ?i out) = n" using lz assms(3) by simp
      show "if bit ?k j then ?i + j < length (take ?i ?z @ drop ?i out) else True"
      proof (cases "bit ?k j")
        case True
        then have "j < ?r" using m by blast
        moreover have "?i + ?r = n" by simp
        ultimately have "?i + j < n" by linarith
        with True l show ?thesis by (simp only: if_True)
      next
        case False
        then show ?thesis by (simp only: if_False)
      qed
    qed
    have "MathKernel_AVX512_F_add fadd fzero a b out n =
        mm512_mask_storeu_pd (take ?i ?z @ drop ?i out) ?i ?k ?res"
      by (simp only: MathKernel_AVX512_F_add_def loop option.case prod.case True if_True
            Let_def nr la lb)
    also have "\<dots> = Some (fold (\<lambda>j q. if bit ?k j then q[?i + j := ?res ! j] else q) [0..<8]
          (take ?i ?z @ drop ?i out))"
      unfolding mm512_mask_storeu_pd_def by (simp only: ok if_True)
    finally show ?thesis unfolding st .
  qed
qed

lemma avx512_add_short_tail:
  assumes "length a = n" "length b = n" "length out = n" and t: "n mod 32 \<le> 8"
  shows "MathKernel_AVX512_F_add fadd fzero a b out n = MathKernel_add fadd a b out n"
proof -
  let ?z = "map (\<lambda>(u, v). fadd u v) (zip a b)"
  have "32 * (n div 32) + n mod 32 = n" by simp
  with t have "32 * (n div 32) + min (n mod 32) 8 = n" by (simp add: min_def)
  then have "MathKernel_AVX512_F_add fadd fzero a b out n = Some (take n ?z @ drop n out)"
    using avx512_add_general[OF assms(1-3), of fadd fzero] by simp
  also have "take n ?z @ drop n out = ?z" using assms by simp
  finally show ?thesis using scalar_add_total[OF assms(1-3), of fadd] by simp
qed

lemma avx512_add_long_tail:
  assumes "length a = n" "length b = n" "length out = n" and t: "8 < n mod 32"
    and j: "32 * (n div 32) + 8 \<le> j" "j < n"
  shows "\<exists>r. MathKernel_AVX512_F_add fadd fzero a b out n = Some r \<and> r ! j = out ! j"
proof -
  let ?z = "map (\<lambda>(u, v). fadd u v) (zip a b)"
  let ?m = "32 * (n div 32) + 8"
  have m: "32 * (n div 32) + min (n mod 32) 8 = ?m" using t by simp
  have "32 * (n div 32) + n mod 32 = n" by simp
  with t have mn: "?m \<le> n" by linarith
  have r: "MathKernel_AVX512_F_add fadd fzero a b out n = Some (take ?m ?z @ drop ?m out)"
    using avx512_add_general[OF assms(1-3), of fadd fzero] unfolding m .
  have "length (take ?m ?z) = ?m" using assms mn by simp
  then have "(take ?m ?z @ drop ?m out) ! j = drop ?m out ! (j - ?m)"
    using j by (simp add: nth_append)
  also have "\<dots> = out ! j" using j assms by simp
  finally show ?thesis using r by blast
qed

text \<open>
  Claim C9 (the AVX-512 add equals the scalar add), evaluated at length 9 on
  \<open>a = [1..9]\<close>, \<open>b = [10, 20, .., 90]\<close> and a zeroed output (small integers, whose
  sums are exact in \<^verbatim>\<open>double\<close>): the scalar kernel writes all nine sums; the
  AVX-512 kernel writes the first eight and never writes \<^verbatim>\<open>out[8]\<close>. The unrolled
  loop leaves up to 31 elements, and the cleanup handles them with one 8-bit
  mask, which covers at most 8.
\<close>

theorem avx512_add_misses_tail:
  "MathKernel_AVX512_F_add (+) 0 [1, 2, 3, 4, 5, 6, 7, 8, 9] [10, 20, 30, 40, 50, 60, 70, 80, 90]
     [0, 0, 0, 0, 0, 0, 0, 0, 0 :: int] 9 = Some [11, 22, 33, 44, 55, 66, 77, 88, 0] \<and>
   MathKernel_add (+) [1, 2, 3, 4, 5, 6, 7, 8, 9] [10, 20, 30, 40, 50, 60, 70, 80, 90]
     [0, 0, 0, 0, 0, 0, 0, 0, 0 :: int] 9 = Some [11, 22, 33, 44, 55, 66, 77, 88, 99]"
  by code_simp

end
